theory Spec2Isabelle
  imports Complex_Main
begin

section \<open>Data model\<close>

text \<open>
  The module \<^verbatim>\<open>minimax_ai.py\<close> imports \<^verbatim>\<open>Player, Side, BoardView, has_won\<close> from the
  module \<^verbatim>\<open>game\<close>. A board is a Python list of nine cells, each \<^verbatim>\<open>None\<close> or a side.
\<close>

text \<open>Modelled from the spec: the type \<^verbatim>\<open>Side\<close> of the module \<^verbatim>\<open>game\<close>: one of two
  values, written X and O in the scenarios of the specification (\<open>O\<close> alone is the
  composition of relations in HOL, hence the prefix).\<close>

datatype Side = SideX | SideO

text \<open>Modelled from the spec: the method \<^verbatim>\<open>Side.swap_side\<close> of the module \<^verbatim>\<open>game\<close>,
  a swap operation returning the opposite side.\<close>

fun swap_side :: "Side \<Rightarrow> Side" where
  "swap_side SideX = SideO"
| "swap_side SideO = SideX"

type_synonym board = "Side option list"

datatype error = IndexError | ValueError | StopIteration

text \<open>The eight lines of the grid, in the order of the list \<^verbatim>\<open>to_checks\<close> of
  \<^verbatim>\<open>_find_win_move\<close>: rows, columns, diagonals.\<close>

definition rows :: "nat list list" where
  "rows = [[0, 1, 2], [3, 4, 5], [6, 7, 8]]"

definition columns :: "nat list list" where
  "columns = [[0, 3, 6], [1, 4, 7], [2, 5, 8]]"

definition diagonals :: "nat list list" where
  "diagonals = [[0, 4, 8], [2, 4, 6]]"

definition to_checks :: "nat list list" where
  "to_checks = [[0, 1, 2], [3, 4, 5], [6, 7, 8],
                [0, 3, 6], [1, 4, 7], [2, 5, 8],
                [0, 4, 8], [2, 4, 6]]"

text \<open>Modelled from the spec: the function \<^verbatim>\<open>has_won\<close> of the module \<^verbatim>\<open>game\<close>, a
  predicate checking all 8 lines for three-in-a-row of the side, over the index mapping
  of the data model (rows, columns, diagonals).\<close>

definition has_won :: "board \<Rightarrow> Side \<Rightarrow> bool" where
  "has_won board side =
     list_ex (\<lambda>line. list_all (\<lambda>i. i < length board \<and> board ! i = Some side) line)
       (rows @ columns @ diagonals)"

section \<open>The immediate-win finder\<close>

text \<open>
  The inner loop of \<^verbatim>\<open>_find_win_move\<close> over the three indices of one line, with the
  loop variables \<^verbatim>\<open>count\<close> and \<^verbatim>\<open>empty_spot\<close> as arguments. Reading \<^verbatim>\<open>board[i]\<close>
  beyond the end of the list raises \<^verbatim>\<open>IndexError\<close>.
\<close>

fun scan_line :: "board \<Rightarrow> Side \<Rightarrow> nat list \<Rightarrow> nat \<Rightarrow> nat option \<Rightarrow> error + (nat \<times> nat option)" where
  "scan_line board side [] count empty_spot = Inr (count, empty_spot)"
| "scan_line board side (i # to_check) count empty_spot =
     (if length board \<le> i then Inl IndexError
      else if board ! i = None then scan_line board side to_check count (Some i)
      else if board ! i = Some side then scan_line board side to_check (count + 1) empty_spot
      else scan_line board side to_check count empty_spot)"

text \<open>The outer loop over the lines still to check.\<close>

fun find_win_loop :: "board \<Rightarrow> Side \<Rightarrow> nat list list \<Rightarrow> error + nat option" where
  "find_win_loop board side [] = Inr None"
| "find_win_loop board side (to_check # rest) =
     (case scan_line board side to_check 0 None of
        Inl e \<Rightarrow> Inl e
      | Inr (count, empty_spot) \<Rightarrow>
          if count = 2 \<and> empty_spot \<noteq> None then Inr empty_spot
          else find_win_loop board side rest)"

definition find_win_move :: "board \<Rightarrow> Side \<Rightarrow> error + nat option" where
  "find_win_move board side = find_win_loop board side to_checks"

section \<open>The minimax evaluator and the move generator\<close>

text \<open>
  \<^verbatim>\<open>_max_score\<close> and \<^verbatim>\<open>_move_scores\<close> mutate the list they are given, so both return
  the board as they leave it next to their result. The generator \<^verbatim>\<open>_move_scores\<close> is
  consumed to its end by each of its callers (\<^verbatim>\<open>max\<close>, \<^verbatim>\<open>min\<close>, and \<^verbatim>\<open>next\<close>
  followed by a \<^verbatim>\<open>for\<close> loop), so the model runs its loop to the end and returns the
  list of the pairs it yields. The loop index runs over \<^verbatim>\<open>range(len(board))\<close>;
  the test \<^verbatim>\<open>board[i] is None\<close> of the inner generator expression is made lazily, on
  the board as it is when the index is reached. Assigning to a cell does not change the
  length of the list. \<^verbatim>\<open>max\<close> and \<^verbatim>\<open>min\<close> of no score raise \<^verbatim>\<open>ValueError\<close>.
\<close>

text \<open>The number of empty cells of a board: what decreases along the recursion.\<close>

definition empties :: "board \<Rightarrow> nat" where
  "empties board = length (filter (\<lambda>c. c = None) board)"

lemma empties_update_Some:
  "i < length board \<Longrightarrow> board ! i = None \<Longrightarrow> empties (board[i := Some s]) < empties board"
proof (induction board arbitrary: i)
  case Nil
  then show ?case by simp
next
  case (Cons c cs)
  then show ?case by (cases i) (auto simp: empties_def)
qed

definition mark :: "Side \<Rightarrow> bool \<Rightarrow> Side" where
  "mark current_side is_maximizing = (if is_maximizing then current_side else swap_side current_side)"

definition best_of :: "bool \<Rightarrow> int list \<Rightarrow> error + int" where
  "best_of is_maximizing scores =
     (case scores of
        [] \<Rightarrow> Inl ValueError
      | s # ss \<Rightarrow> Inr (if is_maximizing then fold max ss s else fold min ss s))"

text \<open>
  The call of \<^verbatim>\<open>_move_scores\<close> that follows a call of \<^verbatim>\<open>_max_score\<close> runs on the board
  that call left behind, so the termination of the pair rests on the fact that both
  leave the board as they found it. It is proved first for the arguments on which the
  functions are known to return; the measure is then the number of empty cells, then
  evaluator before generator, then the number of indices left.
\<close>

function max_score :: "board \<Rightarrow> Side \<Rightarrow> bool \<Rightarrow> error + (int \<times> board)"
  and move_scores_from :: "nat \<Rightarrow> board \<Rightarrow> Side \<Rightarrow> bool \<Rightarrow> error + ((nat \<times> int) list \<times> board)"
where
  "max_score board current_side is_maximizing =
     (if is_maximizing \<and> has_won board current_side then Inr (1, board)
      else if \<not> is_maximizing \<and> has_won board (swap_side current_side) then Inr (- 1, board)
      else if None \<notin> set board then Inr (0, board)
      else (case move_scores_from 0 board current_side (\<not> is_maximizing) of
              Inl e \<Rightarrow> Inl e
            | Inr (pairs, board') \<Rightarrow>
                (case best_of (\<not> is_maximizing) (map snd pairs) of
                   Inl e \<Rightarrow> Inl e
                 | Inr s \<Rightarrow> Inr (s, board'))))"
| "move_scores_from i board current_side is_maximizing =
     (if length board \<le> i then Inr ([], board)
      else if board ! i \<noteq> None then move_scores_from (i + 1) board current_side is_maximizing
      else (case max_score (board[i := Some (mark current_side is_maximizing)])
                   current_side is_maximizing of
              Inl e \<Rightarrow> Inl e
            | Inr (max_score', board') \<Rightarrow>
                (case move_scores_from (i + 1) (board'[i := None]) current_side is_maximizing of
                   Inl e \<Rightarrow> Inl e
                 | Inr (pairs, board'') \<Rightarrow> Inr ((i, max_score') # pairs, board''))))"
  by pat_completeness auto
termination
proof -
  have restore:
    "max_score_move_scores_from_dom (Inl (b, s, m)) \<Longrightarrow> max_score b s m = Inr (v, b') \<Longrightarrow> b' = b"
    "max_score_move_scores_from_dom (Inr (i, b, s, m)) \<Longrightarrow>
       move_scores_from i b s m = Inr (ps, b') \<Longrightarrow> b' = b"
    for b s m v b' i ps
  proof (induction b s m and i b s m arbitrary: v b' and ps b'
      rule: max_score_move_scores_from.pinduct)
    case (1 board current_side is_maximizing)
    then show ?case
      by (auto simp: max_score.psimps split: if_splits sum.splits prod.splits)
  next
    case (2 i board current_side is_maximizing)
    show ?case
    proof (cases "length board \<le> i")
      case True
      with 2 show ?thesis by (simp add: move_scores_from.psimps)
    next
      case inr: False
      show ?thesis
      proof (cases "board ! i = None")
        case False
        with 2 inr show ?thesis by (simp add: move_scores_from.psimps)
      next
        case True
        let ?placed = "board[i := Some (mark current_side is_maximizing)]"
        from 2(1,5) inr True obtain sc bd where
          ms: "max_score ?placed current_side is_maximizing = Inr (sc, bd)"
          by (auto simp: move_scores_from.psimps split: sum.splits)
        from 2(3)[OF inr _ ms] True have bd: "bd = ?placed" by simp
        have undo: "bd[i := None] = board"
          using bd True inr by (simp add: list_update_same_conv)
        from 2(1,5) inr True ms obtain ps' bd' where
          rest: "move_scores_from (i + 1) (bd[i := None]) current_side is_maximizing = Inr (ps', bd')"
          and b': "b' = bd'"
          by (auto simp: move_scores_from.psimps split: sum.splits)
        from 2(4)[OF inr _ ms refl rest] True have "bd' = bd[i := None]" by simp
        with undo b' show ?thesis by simp
      qed
    qed
  qed
  show ?thesis
  proof (relation "inv_image (less_than <*lex*> less_than <*lex*> less_than)
      (\<lambda>x. case x of Inl (b, s, m) \<Rightarrow> (empties b, 1::nat, 0::nat)
                    | Inr (i, b, s, m) \<Rightarrow> (empties b, 0, length b - i))", goal_cases)
    case 1
    show ?case by (intro wf_inv_image wf_lex_prod wf_less_than)
  next
    case (2 board current_side is_maximizing)
    then show ?case by simp
  next
    case (3 i board current_side is_maximizing)
    then show ?case by auto
  next
    case (4 i board current_side is_maximizing)
    then show ?case by (auto simp: empties_update_Some)
  next
    case (5 i board current_side is_maximizing x2 x y)
    let ?placed = "board[i := Some (mark current_side is_maximizing)]"
    from 5 have "y = ?placed"
      using restore(1)[of ?placed current_side is_maximizing x y] by simp
    with 5 have "y[i := None] = board"
      by (simp add: list_update_same_conv)
    with 5 show ?case by auto
  qed
qed

definition move_scores :: "board \<Rightarrow> Side \<Rightarrow> bool \<Rightarrow> error + ((nat \<times> int) list \<times> board)" where
  "move_scores board current_side is_maximizing = move_scores_from 0 board current_side is_maximizing"

section \<open>The policy wrapper\<close>

text \<open>The dataclass \<^verbatim>\<open>MinimaxAi\<close> and its default configuration.\<close>

record MinimaxAi =
  think_chance :: "real \<times> real"

definition default_ai :: MinimaxAi where
  "default_ai = \<lparr>think_chance = (1.0, 1.0)\<rparr>"

text \<open>
  The outcomes of the random draws of one call of \<^verbatim>\<open>decide_move\<close>. A call makes at
  most two draws \<^verbatim>\<open>random.random()\<close>, in this order, and at most one integer draw:
  \<^verbatim>\<open>random.randrange(0, 9)\<close> is \<^verbatim>\<open>_randbelow(9)\<close> and \<^verbatim>\<open>random.choice(seq)\<close> is
  \<^verbatim>\<open>seq[_randbelow(len(seq))]\<close>, which raises \<^verbatim>\<open>IndexError\<close> on an empty sequence.
  The draws \<^verbatim>\<open>random.random()\<close> lie in [0, 1) and \<^verbatim>\<open>_randbelow(n)\<close> lies below n.
\<close>

record rng =
  random1 :: real
  random2 :: real
  randbelow :: "nat \<Rightarrow> nat"

definition valid_rng :: "rng \<Rightarrow> bool" where
  "valid_rng rnd \<longleftrightarrow>
     0 \<le> random1 rnd \<and> random1 rnd < 1 \<and> 0 \<le> random2 rnd \<and> random2 rnd < 1 \<and>
     (\<forall>n>0. randbelow rnd n < n)"

definition choice :: "rng \<Rightarrow> 'a list \<Rightarrow> error + 'a" where
  "choice rnd seq = (if seq = [] then Inl IndexError else Inr (seq ! randbelow rnd (length seq)))"

text \<open>The two list objects of a call: the caller's board view, and the list
  \<^verbatim>\<open>board = list(board_view)\<close>, which exists only once the deep search has started.\<close>

record memory =
  caller_view :: board
  working_copy :: "board option"

text \<open>The comprehension \<^verbatim>\<open>[i for i, tile in enumerate(board_view) if tile is None]\<close>.\<close>

definition avail_moves :: "board \<Rightarrow> nat list" where
  "avail_moves board_view = filter (\<lambda>i. board_view ! i = None) [0..<length board_view]"

text \<open>Lines 30 to 46: the obvious moves, then a random empty cell.\<close>

definition shallow_think :: "MinimaxAi \<Rightarrow> board \<Rightarrow> Side \<Rightarrow> rng \<Rightarrow> error + nat" where
  "shallow_think self board_view current_side rnd =
     (if random2 rnd < snd (think_chance self) then
        (case find_win_move board_view current_side of
           Inl e \<Rightarrow> Inl e
         | Inr (Some at') \<Rightarrow> Inr at'
         | Inr None \<Rightarrow>
             (case find_win_move board_view (swap_side current_side) of
                Inl e \<Rightarrow> Inl e
              | Inr (Some at') \<Rightarrow> Inr at'
              | Inr None \<Rightarrow> choice rnd (avail_moves board_view)))
      else choice rnd (avail_moves board_view))"

text \<open>The loop of lines 55 to 60 over the remaining pairs, with the loop variables
  \<^verbatim>\<open>best_move\<close> and \<^verbatim>\<open>max_score\<close> (here \<open>best_score\<close>) as arguments.\<close>

fun collect_best :: "(nat \<times> int) list \<Rightarrow> nat list \<Rightarrow> int \<Rightarrow> nat list \<times> int" where
  "collect_best [] best_move best_score = (best_move, best_score)"
| "collect_best ((move, score) # rest) best_move best_score =
     (if score > best_score then collect_best rest [move] score
      else if score = best_score then collect_best rest (best_move @ [move]) best_score
      else collect_best rest best_move best_score)"

text \<open>Lines 49 to 62, on the working copy: the chosen move and the copy as it is left.
  \<^verbatim>\<open>next\<close> on a generator that yields nothing raises \<^verbatim>\<open>StopIteration\<close>.\<close>

definition deep_think :: "board \<Rightarrow> Side \<Rightarrow> rng \<Rightarrow> error + (nat \<times> board)" where
  "deep_think board current_side rnd =
     (case move_scores board current_side True of
        Inl e \<Rightarrow> Inl e
      | Inr ([], board') \<Rightarrow> Inl StopIteration
      | Inr ((best_move, best_score) # rest, board') \<Rightarrow>
          (case choice rnd (fst (collect_best rest [best_move] best_score)) of
             Inl e \<Rightarrow> Inl e
           | Inr move \<Rightarrow> Inr (move, board')))"

definition decide_move :: "MinimaxAi \<Rightarrow> board \<Rightarrow> Side \<Rightarrow> rng \<Rightarrow> error + (nat \<times> memory)" where
  "decide_move self board_view current_side rnd =
     (if list_all (\<lambda>tile. tile = None) board_view then
        Inr (randbelow rnd 9, \<lparr>caller_view = board_view, working_copy = None\<rparr>)
      else if random1 rnd \<ge> fst (think_chance self) then
        (case shallow_think self board_view current_side rnd of
           Inl e \<Rightarrow> Inl e
         | Inr at' \<Rightarrow> Inr (at', \<lparr>caller_view = board_view, working_copy = None\<rparr>))
      else
        (case deep_think board_view current_side rnd of
           Inl e \<Rightarrow> Inl e
         | Inr (move, board') \<Rightarrow>
             Inr (move, \<lparr>caller_view = board_view, working_copy = Some board'\<rparr>)))"


section \<open>Reference definitions, in the words of the specification\<close>

text \<open>The two boards of the concrete scenarios of the specification.\<close>

definition scenario_win_board :: board where
  "scenario_win_board = [Some SideX, Some SideX, None, None, Some SideO, None, None, None, None]"

definition scenario_block_board :: board where
  "scenario_block_board =
     [Some SideX, Some SideX, None, Some SideO, Some SideO, None, None, None, None]"

text \<open>
  Immediate-win finder: a line qualifies if exactly 2 cells belong to the side and exactly
  1 is empty; the result is the empty cell of the first qualifying line, in the scan order
  rows, then columns, then diagonals, and none if no line qualifies.
\<close>

definition qualifies :: "board \<Rightarrow> Side \<Rightarrow> nat list \<Rightarrow> bool" where
  "qualifies board side line \<longleftrightarrow>
     length (filter (\<lambda>i. board ! i = Some side) line) = 2 \<and>
     length (filter (\<lambda>i. board ! i = None) line) = 1"

definition empty_cell_of :: "board \<Rightarrow> nat list \<Rightarrow> nat option" where
  "empty_cell_of board line = find (\<lambda>i. board ! i = None) line"

definition first_win_move :: "board \<Rightarrow> Side \<Rightarrow> nat option" where
  "first_win_move board side =
     (case find (qualifies board side) (rows @ columns @ diagonals) of
        None \<Rightarrow> None
      | Some line \<Rightarrow> empty_cell_of board line)"

text \<open>
  Minimax evaluator, as section 4.2 of the specification describes it, without the board
  being mutated: the base cases are checked in order; otherwise the flag is flipped, a
  mark of the side now to move (the root side if the flipped flag is true, else its
  opponent) is placed on every empty cell in turn, and the maximum of the values of the
  children is taken if the flipped flag is true, the minimum if it is false.
\<close>

definition empty_cells :: "board \<Rightarrow> nat list" where
  "empty_cells board = filter (\<lambda>i. board ! i = None) [0..<length board]"

function game_value :: "board \<Rightarrow> Side \<Rightarrow> bool \<Rightarrow> int" where
  "game_value board root_side maximizing =
     (if maximizing \<and> has_won board root_side then 1
      else if \<not> maximizing \<and> has_won board (swap_side root_side) then - 1
      else if empty_cells board = [] then 0
      else if \<not> maximizing then
        Max (set (map (\<lambda>i. game_value (board[i := Some root_side]) root_side True)
                    (empty_cells board)))
      else
        Min (set (map (\<lambda>i. game_value (board[i := Some (swap_side root_side)]) root_side False)
                    (empty_cells board))))"
  by pat_completeness auto
termination
proof (relation "measure (\<lambda>(board, root_side, maximizing). empties board)", goal_cases)
  case 1
  show ?case by simp
next
  case (2 board root_side maximizing i)
  then show ?case by (auto simp: empty_cells_def empties_update_Some)
next
  case (3 board root_side maximizing i)
  then show ?case by (auto simp: empty_cells_def empties_update_Some)
qed


text \<open>Move generator: one pair of a move and its value per empty cell of the board from
  index \<open>i\<close> on, in ascending index order.\<close>

definition scored_from :: "nat \<Rightarrow> board \<Rightarrow> Side \<Rightarrow> bool \<Rightarrow> (nat \<times> int) list" where
  "scored_from i board root_side maximizing =
     map (\<lambda>j. (j, game_value (board[j := Some (mark root_side maximizing)]) root_side maximizing))
       (filter (\<lambda>j. board ! j = None) [i..<length board])"


text \<open>The value of a move: the game value of the board once the side to move has placed
  its mark on the cell, as \<^verbatim>\<open>decide_move\<close> asks \<^verbatim>\<open>_move_scores\<close> for it.\<close>

definition move_value :: "board \<Rightarrow> Side \<Rightarrow> nat \<Rightarrow> int" where
  "move_value board side j = game_value (board[j := Some side]) side True"

text \<open>
  A bounded search for a way of the root side never to lose: at a position where the root
  side is to move one secure move is enough (tried in the order centre, corners, edges),
  where the opponent is to move every move must be secure. It is used to bound the value
  of the nine opening moves from below without computing the whole game tree.
\<close>

definition preferred :: "nat list" where
  "preferred = [4, 0, 8, 2, 6, 1, 7, 3, 5]"

definition candidates :: "board \<Rightarrow> nat list" where
  "candidates board = filter (\<lambda>i. i < length board \<and> board ! i = None) preferred"

fun secure :: "nat \<Rightarrow> board \<Rightarrow> Side \<Rightarrow> bool \<Rightarrow> bool"
  and some_secure :: "nat \<Rightarrow> board \<Rightarrow> Side \<Rightarrow> nat list \<Rightarrow> bool"
  and all_secure :: "nat \<Rightarrow> board \<Rightarrow> Side \<Rightarrow> nat list \<Rightarrow> bool"
where
  "secure 0 board root_side maximizing = False"
| "secure (Suc n) board root_side maximizing =
     (if maximizing \<and> has_won board root_side then True
      else if \<not> maximizing \<and> has_won board (swap_side root_side) then False
      else if empty_cells board = [] then True
      else if \<not> maximizing then some_secure n board root_side (candidates board)
      else all_secure n board root_side (empty_cells board))"
| "some_secure n board root_side [] = False"
| "some_secure n board root_side (i # cells) =
     (if secure n (board[i := Some root_side]) root_side True then True
      else some_secure n board root_side cells)"
| "all_secure n board root_side [] = True"
| "all_secure n board root_side (i # cells) =
     (if secure n (board[i := Some (swap_side root_side)]) root_side False
      then all_secure n board root_side cells else False)"

definition pick_last :: rng where
  "pick_last = \<lparr>random1 = 0, random2 = 0, randbelow = (\<lambda>n. n - 1)\<rparr>"

declare max_score.simps [simp del] move_scores_from.simps [simp del] game_value.simps [simp del]






section \<open>The immediate-win finder returns the empty cell of the first qualifying line\<close>

lemma to_checks_order: "to_checks = rows @ columns @ diagonals"
  by (simp add: to_checks_def rows_def columns_def diagonals_def)

lemma scan_line_result:
  "\<forall>i\<in>set line. i < length board \<Longrightarrow>
   scan_line board side line count es =
     Inr (count + length (filter (\<lambda>i. board ! i = Some side) line),
          (case filter (\<lambda>i. board ! i = None) line of
             [] \<Rightarrow> es
           | e # rest \<Rightarrow> Some (last (e # rest))))"
proof (induction line arbitrary: count es)
  case Nil
  then show ?case by simp
next
  case (Cons i line)
  then show ?case by (auto split: list.splits)
qed

lemma filter_disjoint_length:
  "(\<And>x. P x \<Longrightarrow> \<not> Q x) \<Longrightarrow> length (filter P xs) + length (filter Q xs) \<le> length xs"
  by (induction xs) auto

lemma find_filter: "find P xs = (case filter P xs of [] \<Rightarrow> None | x # rest \<Rightarrow> Some x)"
  by (induction xs) auto

lemma qualifies_iff:
  assumes "length line = 3"
  shows "qualifies board side line \<longleftrightarrow>
     length (filter (\<lambda>i. board ! i = Some side) line) = 2 \<and> filter (\<lambda>i. board ! i = None) line \<noteq> []"
proof -
  have "length (filter (\<lambda>i. board ! i = Some side) line) + length (filter (\<lambda>i. board ! i = None) line) \<le> 3"
    using filter_disjoint_length[of "\<lambda>i. board ! i = Some side" "\<lambda>i. board ! i = None" line] assms
    by simp
  moreover have "filter (\<lambda>i. board ! i = None) line \<noteq> [] \<longleftrightarrow> 0 < length (filter (\<lambda>i. board ! i = None) line)"
    by simp
  ultimately show ?thesis unfolding qualifies_def by linarith
qed

lemma qualifies_last:
  assumes "qualifies board side line"
  shows "\<exists>e. filter (\<lambda>i. board ! i = None) line = [e] \<and> empty_cell_of board line = Some e"
proof -
  from assms have "length (filter (\<lambda>i. board ! i = None) line) = 1"
    by (simp add: qualifies_def)
  then obtain e where "filter (\<lambda>i. board ! i = None) line = [e]"
    by (cases "filter (\<lambda>i. board ! i = None) line") auto
  then show ?thesis by (simp add: empty_cell_of_def find_filter)
qed

lemma find_win_loop_result:
  "\<forall>line\<in>set lines. length line = 3 \<and> (\<forall>i\<in>set line. i < length board) \<Longrightarrow>
   find_win_loop board side lines =
     Inr (case find (qualifies board side) lines of
            None \<Rightarrow> None
          | Some line \<Rightarrow> empty_cell_of board line)"
proof (induction lines)
  case Nil
  then show ?case by simp
next
  case (Cons line lines)
  then have len: "length line = 3" and rng: "\<forall>i\<in>set line. i < length board" by simp_all
  show ?case
  proof (cases "qualifies board side line")
    case True
    with qualifies_last obtain e where
      e: "filter (\<lambda>i. board ! i = None) line = [e]" "empty_cell_of board line = Some e" by blast
    from True have "length (filter (\<lambda>i. board ! i = Some side) line) = 2"
      by (simp add: qualifies_def)
    with True e rng show ?thesis
      by (simp add: scan_line_result)
  next
    case False
    with len have "\<not> (length (filter (\<lambda>i. board ! i = Some side) line) = 2 \<and> filter (\<lambda>i. board ! i = None) line \<noteq> [])"
      by (simp add: qualifies_iff)
    with False rng Cons show ?thesis
      by (auto simp: scan_line_result split: list.splits)
  qed
qed

lemma lines_in_range:
  "length board = 9 \<Longrightarrow> \<forall>line\<in>set to_checks. length line = 3 \<and> (\<forall>i\<in>set line. i < length board)"
  by (simp add: to_checks_def)

lemma find_win_move_result:
  "length board = 9 \<Longrightarrow> find_win_move board side = Inr (first_win_move board side)"
  unfolding find_win_move_def first_win_move_def
  using find_win_loop_result[OF lines_in_range, of board side]
  by (simp add: to_checks_order)

lemma empty_cell_of_sound:
  "empty_cell_of board line = Some i \<Longrightarrow> i \<in> set line \<and> board ! i = None"
  unfolding empty_cell_of_def by (induction line) (auto split: if_splits)

lemma first_win_move_sound:
  assumes "first_win_move board side = Some i"
  shows "i < 9 \<and> board ! i = None"
proof -
  from assms obtain line where l: "find (qualifies board side) (rows @ columns @ diagonals) = Some line"
    and e: "empty_cell_of board line = Some i"
    by (auto simp: first_win_move_def split: option.splits)
  from l have "line \<in> set (rows @ columns @ diagonals)"
    by (metis find_Some_iff nth_mem)
  moreover from e have "i \<in> set line" "board ! i = None"
    using empty_cell_of_sound by blast+
  ultimately show ?thesis
    by (auto simp: rows_def columns_def diagonals_def)
qed


section \<open>The evaluator computes the game value and restores the board\<close>

lemma empty_cells_Nil: "empty_cells board = [] \<longleftrightarrow> None \<notin> set board"
  by (auto simp: empty_cells_def filter_empty_conv in_set_conv_nth)

lemma best_of_Max: "scores \<noteq> [] \<Longrightarrow> best_of True scores = Inr (Max (set scores))"
proof (cases scores)
  case Nil
  assume "scores \<noteq> []"
  with Nil show ?thesis by simp
next
  case (Cons s ss)
  have "fold max ss s = Max (set (s # ss))" by (simp only: Max.set_eq_fold)
  with Cons show ?thesis by (simp add: best_of_def)
qed

lemma best_of_Min: "scores \<noteq> [] \<Longrightarrow> best_of False scores = Inr (Min (set scores))"
proof (cases scores)
  case Nil
  assume "scores \<noteq> []"
  with Nil show ?thesis by simp
next
  case (Cons s ss)
  have "fold min ss s = Min (set (s # ss))" by (simp only: Min.set_eq_fold)
  with Cons show ?thesis by (simp add: best_of_def)
qed

lemma scored_from_step:
  "i < length board \<Longrightarrow> scored_from i board s m =
     (if board ! i = None
      then (i, game_value (board[i := Some (mark s m)]) s m) # scored_from (i + 1) board s m
      else scored_from (i + 1) board s m)"
  by (simp add: scored_from_def upt_conv_Cons)

lemma max_score_game_value:
  "max_score b s m = Inr (game_value b s m, b)"
  "move_scores_from i b s m = Inr (scored_from i b s m, b)"
proof (induction b s m and i b s m rule: max_score_move_scores_from.induct)
  case (1 board current_side is_maximizing)
  show ?case
  proof (cases "(is_maximizing \<and> has_won board current_side) \<or>
                (\<not> is_maximizing \<and> has_won board (swap_side current_side)) \<or> None \<notin> set board")
    case True
    then show ?thesis
      by (subst max_score.simps, subst game_value.simps) (auto simp: empty_cells_Nil)
  next
    case False
    then have ne: "empty_cells board \<noteq> []" by (simp add: empty_cells_Nil)
    have sc: "map snd (scored_from 0 board current_side m') =
        map (\<lambda>i. game_value (board[i := Some (mark current_side m')]) current_side m')
          (empty_cells board)" for m'
      by (simp add: scored_from_def empty_cells_def comp_def)
    show ?thesis
    proof (cases is_maximizing)
      case True
      with False 1 have ms: "move_scores_from 0 board current_side False =
          Inr (scored_from 0 board current_side False, board)" by simp
      from True False ne show ?thesis
        by (subst max_score.simps, subst game_value.simps)
           (simp add: ms sc best_of_Min mark_def empty_cells_Nil)
    next
      case nomax: False
      with False 1 have ms: "move_scores_from 0 board current_side True =
          Inr (scored_from 0 board current_side True, board)" by simp
      from nomax False ne show ?thesis
        by (subst max_score.simps, subst game_value.simps)
           (simp add: ms sc best_of_Max mark_def empty_cells_Nil)
    qed
  qed
next
  case (2 i board current_side is_maximizing)
  show ?case
  proof (cases "length board \<le> i")
    case True
    then show ?thesis
      by (subst move_scores_from.simps) (simp add: scored_from_def)
  next
    case inr: False
    show ?thesis
    proof (cases "board ! i = None")
      case False
      with inr 2(1) show ?thesis
        by (subst move_scores_from.simps) (simp add: scored_from_step)
    next
      case True
      let ?placed = "board[i := Some (mark current_side is_maximizing)]"
      from 2(2) inr True have ms: "max_score ?placed current_side is_maximizing =
          Inr (game_value ?placed current_side is_maximizing, ?placed)" by simp
      have undo: "?placed[i := None] = board"
        using True inr by (simp add: list_update_same_conv)
      from 2(3)[OF inr _ ms refl] True undo
      have "move_scores_from (i + 1) board current_side is_maximizing =
          Inr (scored_from (i + 1) board current_side is_maximizing, board)" by simp
      with inr True ms undo show ?thesis
        by (subst move_scores_from.simps) (simp add: scored_from_step)
    qed
  qed
qed





section \<open>The policy wrapper returns an empty cell, and a best one when it thinks deeply\<close>

lemma move_scores_result:
  "move_scores board side m = Inr (scored_from 0 board side m, board)"
  by (simp add: move_scores_def max_score_game_value)

lemma map_fst_scored_from: "map fst (scored_from 0 board side m) = empty_cells board"
  by (simp add: scored_from_def empty_cells_def comp_def)

lemma avail_moves_empty_cells: "avail_moves board = empty_cells board"
  by (simp add: avail_moves_def empty_cells_def)

lemma empty_cells_iff: "i \<in> set (empty_cells board) \<longleftrightarrow> i < length board \<and> board ! i = None"
  by (auto simp: empty_cells_def)

lemma choice_member:
  "valid_rng rnd \<Longrightarrow> seq \<noteq> [] \<Longrightarrow> \<exists>x \<in> set seq. choice rnd seq = Inr x"
  by (auto simp: choice_def valid_rng_def)

text \<open>The loop over the pairs keeps exactly the moves of the greatest score seen.\<close>

lemma collect_best_invariant:
  assumes "best \<noteq> []" "\<forall>b \<in> set best. f b = sc"
  shows "case collect_best (map (\<lambda>j. (j, f j)) js) best sc of
           (best', sc') \<Rightarrow>
             best' \<noteq> [] \<and> set best' \<subseteq> set best \<union> set js \<and>
             (\<forall>b \<in> set best'. f b = sc') \<and> sc \<le> sc' \<and> (\<forall>j \<in> set js. f j \<le> sc')"
  using assms
proof (induction js arbitrary: best sc)
  case Nil
  then show ?case by simp
next
  case (Cons j js)
  consider "f j > sc" | "f j = sc" | "f j < sc" by linarith
  then show ?case
  proof cases
    case 1
    from Cons.IH[of "[j]" "f j"] 1 show ?thesis
      by (auto split: prod.splits)
  next
    case 2
    from Cons.IH[of "best @ [j]" sc] Cons.prems 2 show ?thesis
      by (auto split: prod.splits)
  next
    case 3
    from Cons.IH[of best sc] Cons.prems 3 show ?thesis
      by (auto split: prod.splits)
  qed
qed

lemma scored_from_move_value:
  "scored_from 0 board side True = map (\<lambda>j. (j, move_value board side j)) (empty_cells board)"
  by (simp add: scored_from_def empty_cells_def move_value_def mark_def)

lemma deep_think_result:
  assumes "valid_rng rnd" "empty_cells board \<noteq> []"
  shows "\<exists>mv. deep_think board side rnd = Inr (mv, board) \<and> mv \<in> set (empty_cells board) \<and>
           (\<forall>j \<in> set (empty_cells board). move_value board side j \<le> move_value board side mv)"
proof -
  from assms(2) obtain j0 js where cells: "empty_cells board = j0 # js"
    by (cases "empty_cells board") auto
  let ?f = "move_value board side"
  obtain best' sc' where cb: "collect_best (map (\<lambda>j. (j, ?f j)) js) [j0] (?f j0) = (best', sc')"
    by (cases "collect_best (map (\<lambda>j. (j, ?f j)) js) [j0] (?f j0)") auto
  from collect_best_invariant[of "[j0]" ?f "?f j0" js] cb
  have inv: "best' \<noteq> []" "set best' \<subseteq> insert j0 (set js)" "\<forall>b \<in> set best'. ?f b = sc'"
    "?f j0 \<le> sc'" "\<forall>j \<in> set js. ?f j \<le> sc'"
    by auto
  from choice_member[OF assms(1) inv(1)] obtain mv where
    mv: "mv \<in> set best'" "choice rnd best' = Inr mv" by blast
  have "deep_think board side rnd = Inr (mv, board)"
    by (simp add: deep_think_def move_scores_result scored_from_move_value cells cb mv)
  moreover from mv inv cells have "mv \<in> set (empty_cells board)" by auto
  moreover from mv inv cells have "\<forall>j \<in> set (empty_cells board). ?f j \<le> ?f mv" by auto
  ultimately show ?thesis by blast
qed

lemma shallow_think_result:
  assumes "valid_rng rnd" "length board = 9" "empty_cells board \<noteq> []"
  shows "\<exists>mv \<in> set (empty_cells board). shallow_think ai board side rnd = Inr mv"
proof -
  from choice_member[OF assms(1,3)] obtain c where
    c: "c \<in> set (empty_cells board)" "choice rnd (empty_cells board) = Inr c" by blast
  have fw: "first_win_move board s = Some i \<Longrightarrow> i \<in> set (empty_cells board)" for s i
    using first_win_move_sound[of board s i] assms(2) by (simp add: empty_cells_iff)
  show ?thesis
    using c fw assms(2)
    by (auto simp: shallow_think_def find_win_move_result avail_moves_empty_cells
             split: option.splits)
qed

lemma all_empty_cells:
  "list_all (\<lambda>tile. tile = None) board \<Longrightarrow> i < length board \<Longrightarrow> board ! i = None"
  by (simp add: list_all_length)

lemma decide_move_result:
  assumes "valid_rng rnd" "length board = 9" "empty_cells board \<noteq> []"
  shows "\<exists>mv mem. decide_move ai board side rnd = Inr (mv, mem) \<and>
           mv < 9 \<and> board ! mv = None \<and> caller_view mem = board \<and>
           (working_copy mem = None \<or> working_copy mem = Some board)"
proof (cases "list_all (\<lambda>tile. tile = None) board")
  case True
  from assms(1) have "randbelow rnd 9 < 9" by (simp add: valid_rng_def)
  with True assms(2) show ?thesis
    by (simp add: decide_move_def all_empty_cells)
next
  case False
  show ?thesis
  proof (cases "random1 rnd \<ge> fst (think_chance ai)")
    case True
    from shallow_think_result[OF assms, of ai side] obtain mv where
      "mv \<in> set (empty_cells board)" "shallow_think ai board side rnd = Inr mv" by blast
    with False True assms(2) show ?thesis
      by (simp add: decide_move_def empty_cells_iff)
  next
    case nodeep: False
    from deep_think_result[OF assms(1,3), of side] obtain mv where
      "mv \<in> set (empty_cells board)" "deep_think board side rnd = Inr (mv, board)" by blast
    with False nodeep assms(2) show ?thesis
      by (simp add: decide_move_def empty_cells_iff)
  qed
qed

section \<open>The evaluator against the rules of the game\<close>





section \<open>Every opening move on the empty board holds the draw\<close>

lemma some_secure_iff:
  "some_secure n board r cells \<longleftrightarrow> (\<exists>i \<in> set cells. secure n (board[i := Some r]) r True)"
  by (induction cells) auto

lemma all_secure_iff:
  "all_secure n board r cells \<longleftrightarrow> (\<forall>i \<in> set cells. secure n (board[i := Some (swap_side r)]) r False)"
  by (induction cells) auto

lemma candidates_subset: "set (candidates board) \<subseteq> set (empty_cells board)"
  by (auto simp: candidates_def empty_cells_def)

lemma secure_sound: "secure n board r m \<Longrightarrow> 0 \<le> game_value board r m"
proof (induction n arbitrary: board m)
  case 0
  then show ?case by simp
next
  case (Suc n)
  show ?case
  proof (cases "(m \<and> has_won board r) \<or> (\<not> m \<and> has_won board (swap_side r)) \<or> empty_cells board = []")
    case True
    with Suc.prems show ?thesis
      by (subst game_value.simps) (auto split: if_splits)
  next
    case False
    show ?thesis
    proof (cases m)
      case True
      let ?cs = "map (\<lambda>i. game_value (board[i := Some (swap_side r)]) r False) (empty_cells board)"
      from True False have gv: "game_value board r m = Min (set ?cs)"
        by (subst game_value.simps) simp
      from Suc.prems True False have "all_secure n board r (empty_cells board)" by simp
      with Suc.IH have "\<forall>v \<in> set ?cs. 0 \<le> v" by (auto simp: all_secure_iff)
      moreover from False have "set ?cs \<noteq> {}" by simp
      ultimately show ?thesis unfolding gv by (simp del: set_map)
    next
      case nomax: False
      let ?cs = "map (\<lambda>i. game_value (board[i := Some r]) r True) (empty_cells board)"
      from nomax False have gv: "game_value board r m = Max (set ?cs)"
        by (subst game_value.simps) simp
      from Suc.prems nomax False have "some_secure n board r (candidates board)" by simp
      then obtain i where i: "i \<in> set (candidates board)"
        "secure n (board[i := Some r]) r True"
        by (auto simp: some_secure_iff)
      with Suc.IH candidates_subset have "i \<in> set (empty_cells board)"
        "0 \<le> game_value (board[i := Some r]) r True"
        by blast+
      then have "game_value (board[i := Some r]) r True \<in> set ?cs" by simp
      then have "game_value (board[i := Some r]) r True \<le> Max (set ?cs)"
        by (intro Max_ge) simp_all
      with \<open>0 \<le> game_value (board[i := Some r]) r True\<close> show ?thesis
        unfolding gv by linarith
    qed
  qed
qed

lemma upt9: "[0..<9] = [0, 1, 2, 3, 4, 5, 6, 7, 8]"
  by (simp add: eval_nat_numeral upt_conv_Cons)

lemma filter_step: "filter P (x # xs) = (if P x then [x] else []) @ filter P xs"
  by simp

lemma nth_lit:
  "[a, b, c, d, e, f, g, h, i] ! 0 = a"
  "[a, b, c, d, e, f, g, h, i] ! 1 = b"
  "[a, b, c, d, e, f, g, h, i] ! 2 = c"
  "[a, b, c, d, e, f, g, h, i] ! 3 = d"
  "[a, b, c, d, e, f, g, h, i] ! 4 = e"
  "[a, b, c, d, e, f, g, h, i] ! 5 = f"
  "[a, b, c, d, e, f, g, h, i] ! 6 = g"
  "[a, b, c, d, e, f, g, h, i] ! 7 = h"
  "[a, b, c, d, e, f, g, h, i] ! 8 = i"
  by simp_all

lemma len_lit: "length [a, b, c, d, e, f, g, h, i] = 9"
  by simp


lemma if_chain: "(if A then True else B) = (A \<or> B)"
  by simp

lemma has_won_lit:
  "has_won [a, b, c, d, e, f, g, h, i] s \<longleftrightarrow>
     (if a = Some s \<and> b = Some s \<and> c = Some s then True
      else if d = Some s \<and> e = Some s \<and> f = Some s then True
      else if g = Some s \<and> h = Some s \<and> i = Some s then True
      else if a = Some s \<and> d = Some s \<and> g = Some s then True
      else if b = Some s \<and> e = Some s \<and> h = Some s then True
      else if c = Some s \<and> f = Some s \<and> i = Some s then True
      else if a = Some s \<and> e = Some s \<and> i = Some s then True
      else c = Some s \<and> e = Some s \<and> g = Some s)"
proof -
  have "has_won [a, b, c, d, e, f, g, h, i] s \<longleftrightarrow>
     (a = Some s \<and> b = Some s \<and> c = Some s) \<or>
     (d = Some s \<and> e = Some s \<and> f = Some s) \<or>
     (g = Some s \<and> h = Some s \<and> i = Some s) \<or>
     (a = Some s \<and> d = Some s \<and> g = Some s) \<or>
     (b = Some s \<and> e = Some s \<and> h = Some s) \<or>
     (c = Some s \<and> f = Some s \<and> i = Some s) \<or>
     (a = Some s \<and> e = Some s \<and> i = Some s) \<or>
     (c = Some s \<and> e = Some s \<and> g = Some s)"
    by (simp add: has_won_def rows_def columns_def diagonals_def)
  then show ?thesis by (simp only: if_chain)
qed

lemma empty_cells_lit:
  "empty_cells [a, b, c, d, e, f, g, h, i] =
     (if a = None then [0] else []) @ (if b = None then [1] else []) @
     (if c = None then [2] else []) @ (if d = None then [3] else []) @
     (if e = None then [4] else []) @ (if f = None then [5] else []) @
     (if g = None then [6] else []) @ (if h = None then [7] else []) @
     (if i = None then [8] else [])"
  unfolding empty_cells_def len_lit upt9
  by (simp only: filter_step filter.simps(1) nth_lit append_Nil2)

lemma candidates_lit:
  "candidates [a, b, c, d, e, f, g, h, i] =
     (if e = None then [4] else []) @ (if a = None then [0] else []) @
     (if i = None then [8] else []) @ (if c = None then [2] else []) @
     (if g = None then [6] else []) @ (if b = None then [1] else []) @
     (if h = None then [7] else []) @ (if d = None then [3] else []) @
     (if f = None then [5] else [])"
proof -
  have lt: "(4::nat) < 9" "(0::nat) < 9" "(8::nat) < 9" "(2::nat) < 9" "(6::nat) < 9"
    "(1::nat) < 9" "(7::nat) < 9" "(3::nat) < 9" "(5::nat) < 9" by simp_all
  show ?thesis
    unfolding candidates_def preferred_def len_lit
    by (simp only: filter_step filter.simps(1) nth_lit append_Nil2 lt simp_thms)
qed

lemma update_lit:
  "[a, b, c, d, e, f, g, h, i][0 := x] = [x, b, c, d, e, f, g, h, i]"
  "[a, b, c, d, e, f, g, h, i][1 := x] = [a, x, c, d, e, f, g, h, i]"
  "[a, b, c, d, e, f, g, h, i][2 := x] = [a, b, x, d, e, f, g, h, i]"
  "[a, b, c, d, e, f, g, h, i][3 := x] = [a, b, c, x, e, f, g, h, i]"
  "[a, b, c, d, e, f, g, h, i][4 := x] = [a, b, c, d, x, f, g, h, i]"
  "[a, b, c, d, e, f, g, h, i][5 := x] = [a, b, c, d, e, x, g, h, i]"
  "[a, b, c, d, e, f, g, h, i][6 := x] = [a, b, c, d, e, f, x, h, i]"
  "[a, b, c, d, e, f, g, h, i][7 := x] = [a, b, c, d, e, f, g, x, i]"
  "[a, b, c, d, e, f, g, h, i][8 := x] = [a, b, c, d, e, f, g, h, x]"
  by (simp_all add: eval_nat_numeral)


lemmas eval_rules = secure.simps some_secure.simps all_secure.simps has_won_lit empty_cells_lit
  candidates_lit update_lit swap_side.simps if_True if_False simp_thms append.simps
  option.distinct option.inject Side.distinct list.distinct

lemma nine_Suc: "(9::nat) = Suc (Suc (Suc (Suc (Suc (Suc (Suc (Suc (Suc 0))))))))"
  by simp

lemma openings_X:
  "secure 9 [Some SideX, None, None, None, None, None, None, None, None] SideX True"
  "secure 9 [None, Some SideX, None, None, None, None, None, None, None] SideX True"
  "secure 9 [None, None, Some SideX, None, None, None, None, None, None] SideX True"
  "secure 9 [None, None, None, Some SideX, None, None, None, None, None] SideX True"
  "secure 9 [None, None, None, None, Some SideX, None, None, None, None] SideX True"
  "secure 9 [None, None, None, None, None, Some SideX, None, None, None] SideX True"
  "secure 9 [None, None, None, None, None, None, Some SideX, None, None] SideX True"
  "secure 9 [None, None, None, None, None, None, None, Some SideX, None] SideX True"
  "secure 9 [None, None, None, None, None, None, None, None, Some SideX] SideX True"
  by (simp_all only: nine_Suc eval_rules cong: if_weak_cong)

lemma openings_O:
  "secure 9 [Some SideO, None, None, None, None, None, None, None, None] SideO True"
  "secure 9 [None, Some SideO, None, None, None, None, None, None, None] SideO True"
  "secure 9 [None, None, Some SideO, None, None, None, None, None, None] SideO True"
  "secure 9 [None, None, None, Some SideO, None, None, None, None, None] SideO True"
  "secure 9 [None, None, None, None, Some SideO, None, None, None, None] SideO True"
  "secure 9 [None, None, None, None, None, Some SideO, None, None, None] SideO True"
  "secure 9 [None, None, None, None, None, None, Some SideO, None, None] SideO True"
  "secure 9 [None, None, None, None, None, None, None, Some SideO, None] SideO True"
  "secure 9 [None, None, None, None, None, None, None, None, Some SideO] SideO True"
  by (simp_all only: nine_Suc eval_rules cong: if_weak_cong)

lemma below_nine:
  "mv < 9 \<Longrightarrow> mv = 0 \<or> mv = 1 \<or> mv = 2 \<or> mv = 3 \<or> mv = 4 \<or> mv = 5 \<or> mv = 6 \<or> mv = 7 \<or> mv = (8::nat)"
  by arith

lemma replicate_nine: "replicate 9 x = [x, x, x, x, x, x, x, x, x]"
  by (simp add: eval_nat_numeral)

lemma opening_secure:
  assumes "mv < 9"
  shows "secure 9 ((replicate 9 None)[mv := Some side]) side True"
proof (cases side)
  case SideX
  with below_nine[OF assms] show ?thesis
    by (auto simp only: replicate_nine update_lit openings_X)
next
  case SideO
  with below_nine[OF assms] show ?thesis
    by (auto simp only: replicate_nine update_lit openings_O)
qed

lemma all_empty_replicate:
  "list_all (\<lambda>tile. tile = None) board \<Longrightarrow> board = replicate (length board) None"
  by (induction board) auto

lemma opening_move_value:
  assumes "list_all (\<lambda>tile. tile = None) board" and "length board = 9" and "mv < 9"
  shows "0 \<le> move_value board side mv"
proof -
  from all_empty_replicate[OF assms(1)] assms(2) have "board = replicate 9 None" by simp
  with secure_sound[OF opening_secure[OF assms(3), of side]] show ?thesis
    by (simp add: move_value_def)
qed

lemma position_value_gives_move:
  assumes "0 \<le> game_value board side False" and "empty_cells board \<noteq> []"
  shows "\<exists>i \<in> set (empty_cells board). 0 \<le> move_value board side i"
proof -
  let ?cs = "map (\<lambda>i. game_value (board[i := Some side]) side True) (empty_cells board)"
  have "\<not> has_won board (swap_side side)"
  proof
    assume "has_won board (swap_side side)"
    then have "game_value board side False = - 1"
      by (subst game_value.simps) simp
    with assms(1) show False by simp
  qed
  with assms(2) have gv: "game_value board side False = Max (set ?cs)"
    by (subst game_value.simps) simp
  from assms(2) have "Max (set ?cs) \<in> set ?cs"
    by (intro Max_in) simp_all
  then obtain i where "i \<in> set (empty_cells board)"
    "Max (set ?cs) = game_value (board[i := Some side]) side True" by auto
  with assms(1) gv show ?thesis by (auto simp: move_value_def)
qed

section \<open>Facts about the scenarios and the random source\<close>

lemma has_empty_cell:
  "length board = 9 \<Longrightarrow> (\<exists>i<9. board ! i = None) \<Longrightarrow> empty_cells board \<noteq> []"
  by (metis empty_cells_iff empty_iff list.set(1))

lemma valid_pick_last: "valid_rng pick_last"
  by (simp add: valid_rng_def pick_last_def)

lemma empties_zero: "empties board = 0 \<longleftrightarrow> None \<notin> set board"
  by (induction board) (auto simp: empties_def)

lemma scenario_win_scores:
  "move_scores scenario_win_board SideX True =
     Inr ([(2, 1), (3, 1), (5, 0), (6, 1), (7, 1), (8, 1)], scenario_win_board)"
  unfolding scenario_win_board_def by code_simp

lemma scenario_win_not_empty: "\<not> list_all (\<lambda>tile. tile = None) scenario_win_board"
  by (simp add: scenario_win_board_def)

lemma scenario_win_deep:
  assumes "valid_rng rnd"
  shows "deep_think scenario_win_board SideX rnd =
           Inr ([2, 3, 6, 7, 8] ! randbelow rnd 5, scenario_win_board)"
proof -
  have "choice rnd [2, 3, 6, 7, 8] = Inr ([2, 3, 6, 7, 8 :: nat] ! randbelow rnd 5)"
    by (simp add: choice_def eval_nat_numeral)
  then show ?thesis
    by (simp add: deep_think_def scenario_win_scores)
qed

lemma scenario_block_finds:
  "find_win_move scenario_block_board SideX = Inr (Some 2)"
  "find_win_move scenario_block_board SideO = Inr (Some 5)"
  by code_simp+

lemma scenario_block_not_empty: "\<not> list_all (\<lambda>tile. tile = None) scenario_block_board"
  by (simp add: scenario_block_board_def)

section \<open>Claims about the immediate-win finder\<close>

text \<open>
  C4. For every 9-cell board and side, \<^verbatim>\<open>_find_win_move\<close> scans the 8 lines in the fixed
  order rows, then columns, then diagonals, and returns the empty cell of the first line
  that has exactly 2 cells of the side and exactly 1 empty cell, and \<^verbatim>\<open>None\<close> if no line
  qualifies. The function only reads the board: its model is a function of the board it is
  given and hands no board back.
\<close>

theorem find_win_move_first_qualifying_line:
  "length board = 9 \<Longrightarrow>
     to_checks = rows @ columns @ diagonals \<and>
     find_win_move board side = Inr (first_win_move board side)"
  by (simp add: find_win_move_result to_checks_order)

theorem find_win_move_first_qualifying_line_witness:
  "length scenario_block_board = 9 \<and>
   to_checks = rows @ columns @ diagonals \<and>
   find_win_move scenario_block_board SideO = Inr (first_win_move scenario_block_board SideO) \<and>
   first_win_move scenario_block_board SideO = Some 5"
proof -
  have len: "length scenario_block_board = 9"
    by (simp add: scenario_block_board_def)
  have "first_win_move scenario_block_board SideO = Some 5"
    by code_simp
  with len find_win_move_first_qualifying_line[OF len, of SideO] show ?thesis by simp
qed

text \<open>
  C10. For every 9-cell board whatsoever, reachable by play or not, \<^verbatim>\<open>_find_win_move\<close>
  returns without raising, and what it returns is either \<^verbatim>\<open>None\<close> or an index below 9
  of a cell that is empty on the board.
\<close>

theorem find_win_move_total_and_empty:
  "length board = 9 \<Longrightarrow>
     find_win_move board side = Inr None \<or>
     (\<exists>i<9. find_win_move board side = Inr (Some i) \<and> board ! i = None)"
  using first_win_move_sound[of board side]
  by (cases "first_win_move board side") (auto simp: find_win_move_result)

theorem find_win_move_total_and_empty_witness:
  "length [Some SideX, Some SideX, Some SideO, Some SideO, Some SideO, Some SideO,
           Some SideX, Some SideX, None] = 9 \<and>
   (find_win_move [Some SideX, Some SideX, Some SideO, Some SideO, Some SideO, Some SideO,
                   Some SideX, Some SideX, None] SideX = Inr None \<or>
    (\<exists>i<9. find_win_move [Some SideX, Some SideX, Some SideO, Some SideO, Some SideO,
                           Some SideO, Some SideX, Some SideX, None] SideX = Inr (Some i) \<and>
            [Some SideX, Some SideX, Some SideO, Some SideO, Some SideO, Some SideO,
             Some SideX, Some SideX, None] ! i = None))"
  using find_win_move_total_and_empty[of "[Some SideX, Some SideX, Some SideO, Some SideO,
    Some SideO, Some SideO, Some SideX, Some SideX, None]" SideX]
  by simp

section \<open>Claims about the evaluator\<close>




text \<open>
  C7. \<^verbatim>\<open>decide_move\<close> never mutates the board view of its caller: the list it was given
  is as it was when the call returns, and the only other list of the call is the working
  copy, which either does not exist (no deep search) or is equal again to the board view.
  Every call of \<^verbatim>\<open>_max_score\<close> and every generator \<^verbatim>\<open>_move_scores\<close> run to its end,
  from index 0 or from any later index of its loop, returns and leaves the working board
  equal to its value on entry: each mark is removed before the next cell is looked at.
\<close>

theorem search_restores_working_board:
  assumes "length board_view = 9" and "\<exists>i<9. board_view ! i = None" and "valid_rng rnd"
  shows "(\<exists>mv mem. decide_move self board_view current_side rnd = Inr (mv, mem) \<and>
            caller_view mem = board_view \<and>
            (working_copy mem = None \<or> working_copy mem = Some board_view)) \<and>
         (\<exists>score. max_score board side flag = Inr (score, board)) \<and>
         (\<exists>pairs. move_scores board side flag = Inr (pairs, board)) \<and>
         (\<exists>pairs. move_scores_from i board side flag = Inr (pairs, board)) \<and>
         (\<exists>move. deep_think board_view current_side rnd = Inr (move, board_view))"
proof -
  from decide_move_result[OF assms(3) assms(1) has_empty_cell[OF assms(1,2)], of self current_side]
  have "\<exists>mv mem. decide_move self board_view current_side rnd = Inr (mv, mem) \<and>
            caller_view mem = board_view \<and>
            (working_copy mem = None \<or> working_copy mem = Some board_view)" by blast
  moreover from deep_think_result[OF assms(3) has_empty_cell[OF assms(1,2)], of current_side]
  have "\<exists>move. deep_think board_view current_side rnd = Inr (move, board_view)" by blast
  ultimately show ?thesis
    by (simp add: max_score_game_value move_scores_result)
qed

theorem search_restores_working_board_witness:
  "length scenario_win_board = 9 \<and> (\<exists>i<9. scenario_win_board ! i = None) \<and>
   valid_rng pick_last \<and>
   (\<exists>mv mem. decide_move default_ai scenario_win_board SideX pick_last = Inr (mv, mem) \<and>
      caller_view mem = scenario_win_board \<and>
      (working_copy mem = None \<or> working_copy mem = Some scenario_win_board)) \<and>
   (\<exists>score. max_score scenario_block_board SideO False = Inr (score, scenario_block_board)) \<and>
   (\<exists>pairs. move_scores scenario_block_board SideO False = Inr (pairs, scenario_block_board)) \<and>
   (\<exists>pairs. move_scores_from 3 scenario_block_board SideO False =
      Inr (pairs, scenario_block_board)) \<and>
   (\<exists>move. deep_think scenario_win_board SideX pick_last = Inr (move, scenario_win_board))"
proof -
  have len: "length scenario_win_board = 9"
    by (simp add: scenario_win_board_def)
  have emp: "\<exists>i<9. scenario_win_board ! i = None"
    by (rule exI[of _ 2]) (simp add: scenario_win_board_def)
  from search_restores_working_board[OF len emp valid_pick_last,
      of default_ai SideX scenario_block_board SideO False 3] len emp valid_pick_last
  show ?thesis by blast
qed


text \<open>
  C9. For every 9-cell board, side and flag, \<^verbatim>\<open>_max_score\<close> returns a score (the model is
  a total function, its recursion accepted with the number of empty cells as the measure,
  and it returns no error), and so does the generator, with one pair per empty cell; every
  mark placed on an empty cell gives a board with strictly fewer empty cells; on a board
  with no empty cell the result is that of the base cases, with no recursive call; hence
  \<^verbatim>\<open>decide_move\<close> returns on every 9-cell board with an empty cell.
\<close>

theorem max_score_terminates:
  assumes "length board = 9"
  shows "(\<exists>score. max_score board side flag = Inr (score, board)) \<and>
         (\<exists>pairs. move_scores board side flag = Inr (pairs, board) \<and>
                   map fst pairs = empty_cells board) \<and>
         (\<forall>i<9. board ! i = None \<longrightarrow>
            empties (board[i := Some (mark side flag)]) < empties board) \<and>
         (empties board = 0 \<longrightarrow>
            max_score board side flag =
              Inr (if flag \<and> has_won board side then 1
                   else if \<not> flag \<and> has_won board (swap_side side) then - 1 else 0, board)) \<and>
         ((\<exists>i<9. board ! i = None) \<and> valid_rng rnd \<longrightarrow>
            (\<exists>mv mem. decide_move self board side rnd = Inr (mv, mem)))"
proof -
  have "empties board = 0 \<longrightarrow>
            max_score board side flag =
              Inr (if flag \<and> has_won board side then 1
                   else if \<not> flag \<and> has_won board (swap_side side) then - 1 else 0, board)"
    by (subst max_score.simps) (simp add: empties_zero)
  moreover have "(\<exists>i<9. board ! i = None) \<and> valid_rng rnd \<longrightarrow>
            (\<exists>mv mem. decide_move self board side rnd = Inr (mv, mem))"
    using decide_move_result[OF _ assms has_empty_cell[OF assms], of rnd self side] by blast
  moreover have "\<forall>i<9. board ! i = None \<longrightarrow>
            empties (board[i := Some (mark side flag)]) < empties board"
    using assms by (simp add: empties_update_Some)
  ultimately show ?thesis
    by (simp add: max_score_game_value move_scores_result scored_from_def empty_cells_def comp_def)
qed

theorem max_score_terminates_witness:
  "length scenario_win_board = 9 \<and>
   (\<exists>score. max_score scenario_win_board SideX True = Inr (score, scenario_win_board)) \<and>
   (\<exists>pairs. move_scores scenario_win_board SideX True = Inr (pairs, scenario_win_board) \<and>
             map fst pairs = empty_cells scenario_win_board) \<and>
   scenario_win_board ! 2 = None \<and>
   empties (scenario_win_board[2 := Some (mark SideX True)]) < empties scenario_win_board \<and>
   (\<exists>i<9. scenario_win_board ! i = None) \<and> valid_rng pick_last \<and>
   (\<exists>mv mem. decide_move default_ai scenario_win_board SideX pick_last = Inr (mv, mem))"
proof -
  have len: "length scenario_win_board = 9"
    by (simp add: scenario_win_board_def)
  have two: "scenario_win_board ! 2 = None"
    by (simp add: scenario_win_board_def)
  then have emp: "\<exists>i<9. scenario_win_board ! i = None"
    by (intro exI[of _ 2]) simp
  from max_score_terminates[OF len, of SideX True pick_last default_ai] len two emp valid_pick_last
  show ?thesis by auto
qed



section \<open>Claims about the policy wrapper\<close>

text \<open>
  C3. For every 9-cell board view with at least one empty cell, every side, every pair of
  probabilities (so in particular every pair in [0,1]) and every outcome of the random
  draws, \<^verbatim>\<open>decide_move\<close> returns an index below 9 of a cell that is empty in the board
  view.
\<close>

theorem decide_move_returns_empty_cell:
  assumes "length board_view = 9" and "\<exists>i<9. board_view ! i = None" and "valid_rng rnd"
  shows "\<exists>mv mem. decide_move self board_view current_side rnd = Inr (mv, mem) \<and>
           mv < 9 \<and> board_view ! mv = None"
  using decide_move_result[OF assms(3) assms(1) has_empty_cell[OF assms(1,2)], of self current_side]
  by blast

theorem decide_move_returns_empty_cell_witness:
  "length scenario_block_board = 9 \<and> (\<exists>i<9. scenario_block_board ! i = None) \<and>
   valid_rng pick_last \<and>
   (\<exists>mv mem. decide_move \<lparr>think_chance = (0, 1)\<rparr> scenario_block_board SideX pick_last =
        Inr (mv, mem) \<and> mv < 9 \<and> scenario_block_board ! mv = None)"
proof -
  have len: "length scenario_block_board = 9"
    by (simp add: scenario_block_board_def)
  have emp: "\<exists>i<9. scenario_block_board ! i = None"
    by (rule exI[of _ 2]) (simp add: scenario_block_board_def)
  from decide_move_returns_empty_cell[OF len emp valid_pick_last] len emp valid_pick_last
  show ?thesis by blast
qed


text \<open>
  C8. With the default configuration \<^verbatim>\<open>think_chance = (1.0, 1.0)\<close>, on every board that
  is not entirely empty and for every outcome of the random draws, the test
  \<^verbatim>\<open>random.random() >= self.think_chance[0]\<close> that guards the shallow and the random
  branch is false, and what \<^verbatim>\<open>decide_move\<close> returns is what the minimax path returns.
\<close>

theorem default_config_takes_minimax_path:
  assumes "valid_rng rnd" and "\<not> list_all (\<lambda>tile. tile = None) board_view"
  shows "\<not> random1 rnd \<ge> fst (think_chance default_ai) \<and>
         decide_move default_ai board_view current_side rnd =
           (case deep_think board_view current_side rnd of
              Inl e \<Rightarrow> Inl e
            | Inr (move, board') \<Rightarrow>
                Inr (move, \<lparr>caller_view = board_view, working_copy = Some board'\<rparr>))"
  using assms by (simp add: decide_move_def default_ai_def valid_rng_def)

theorem default_config_takes_minimax_path_witness:
  "valid_rng pick_last \<and> \<not> list_all (\<lambda>tile. tile = None) scenario_win_board \<and>
   \<not> random1 pick_last \<ge> fst (think_chance default_ai) \<and>
   decide_move default_ai scenario_win_board SideX pick_last =
     (case deep_think scenario_win_board SideX pick_last of
        Inl e \<Rightarrow> Inl e
      | Inr (move, board') \<Rightarrow>
          Inr (move, \<lparr>caller_view = scenario_win_board, working_copy = Some board'\<rparr>))"
proof -
  have ne: "\<not> list_all (\<lambda>tile. tile = None) scenario_win_board"
    by (simp add: scenario_win_board_def)
  from default_config_takes_minimax_path[OF valid_pick_last ne, of SideX] valid_pick_last ne
  show ?thesis by blast
qed


text \<open>
  C5, as amended. On the board [X, X, None, None, O, None, None, None, None] with X to move
  and \<^verbatim>\<open>thinkChanceDeep = 1.0\<close>, the scores of the moves 2, 3, 5, 6, 7, 8 are
  1, 1, 0, 1, 1, 1: five moves share the greatest score, and \<^verbatim>\<open>decide_move\<close> returns
  the one of 2, 3, 6, 7, 8 that the random tie-break draws (2 when the draw is 0).
\<close>

theorem scenario_win_returns_a_winning_move:
  assumes "valid_rng rnd" and "fst (think_chance self) = 1"
  shows "decide_move self scenario_win_board SideX rnd =
           Inr ([2, 3, 6, 7, 8] ! randbelow rnd 5,
                \<lparr>caller_view = scenario_win_board, working_copy = Some scenario_win_board\<rparr>) \<and>
         randbelow rnd 5 < 5 \<and>
         move_scores scenario_win_board SideX True =
           Inr ([(2, 1), (3, 1), (5, 0), (6, 1), (7, 1), (8, 1)], scenario_win_board)"
proof -
  from assms have "\<not> random1 rnd \<ge> fst (think_chance self)" "randbelow rnd 5 < 5"
    by (simp_all add: valid_rng_def)
  then show ?thesis
    by (simp add: decide_move_def scenario_win_not_empty scenario_win_deep[OF assms(1)]
          scenario_win_scores)
qed

theorem scenario_win_returns_a_winning_move_witness:
  "valid_rng pick_last \<and> fst (think_chance default_ai) = 1 \<and>
   decide_move default_ai scenario_win_board SideX pick_last =
     Inr ([2, 3, 6, 7, 8] ! randbelow pick_last 5,
          \<lparr>caller_view = scenario_win_board, working_copy = Some scenario_win_board\<rparr>) \<and>
   randbelow pick_last 5 < 5"
proof -
  have p: "fst (think_chance default_ai) = 1" by (simp add: default_ai_def)
  from scenario_win_returns_a_winning_move[OF valid_pick_last p] valid_pick_last p
  show ?thesis by blast
qed

text \<open>
  C5, as stated, fails: with the draw that picks the last candidate, the move returned on
  the board of the scenario is 8 and not 2.
\<close>

theorem scenario_win_may_return_8:
  "valid_rng pick_last \<and> fst (think_chance default_ai) = 1 \<and>
   decide_move default_ai scenario_win_board SideX pick_last =
     Inr (8, \<lparr>caller_view = scenario_win_board, working_copy = Some scenario_win_board\<rparr>) \<and>
   decide_move default_ai scenario_win_board SideX pick_last \<noteq>
     Inr (2, \<lparr>caller_view = scenario_win_board, working_copy = Some scenario_win_board\<rparr>)"
proof -
  have "\<not> random1 pick_last \<ge> fst (think_chance default_ai)"
    by (simp add: pick_last_def default_ai_def)
  then have "decide_move default_ai scenario_win_board SideX pick_last =
     Inr (8, \<lparr>caller_view = scenario_win_board, working_copy = Some scenario_win_board\<rparr>)"
    by (simp add: decide_move_def scenario_win_not_empty scenario_win_deep[OF valid_pick_last])
       (simp add: pick_last_def)
  then show ?thesis by (simp add: valid_pick_last default_ai_def)
qed


text \<open>
  C6, as amended. On the board [X, X, None, O, O, None, None, None, None] with X to move,
  \<^verbatim>\<open>thinkChanceDeep = 0\<close> and \<^verbatim>\<open>thinkChanceShallow = 1.0\<close>, \<^verbatim>\<open>decide_move\<close> returns 2
  for every outcome of the random draws: X has a win of its own at 2 (row 0-1-2), which is
  looked for, and returned, before the block at 5.
\<close>

theorem scenario_block_returns_own_win:
  assumes "valid_rng rnd" and "think_chance self = (0, 1)"
  shows "decide_move self scenario_block_board SideX rnd =
           Inr (2, \<lparr>caller_view = scenario_block_board, working_copy = None\<rparr>) \<and>
         find_win_move scenario_block_board SideX = Inr (Some 2) \<and>
         find_win_move scenario_block_board (swap_side SideX) = Inr (Some 5)"
  using assms
  by (simp add: decide_move_def scenario_block_not_empty shallow_think_def
        scenario_block_finds valid_rng_def)

theorem scenario_block_returns_own_win_witness:
  "valid_rng pick_last \<and> think_chance \<lparr>think_chance = (0, 1)\<rparr> = (0, 1) \<and>
   decide_move \<lparr>think_chance = (0, 1)\<rparr> scenario_block_board SideX pick_last =
     Inr (2, \<lparr>caller_view = scenario_block_board, working_copy = None\<rparr>)"
proof -
  have p: "think_chance \<lparr>think_chance = (0, 1)\<rparr> = (0, 1)" by simp
  from scenario_block_returns_own_win[OF valid_pick_last p] valid_pick_last
  show ?thesis by simp
qed

text \<open>
  C6, as stated, fails: on the board of the scenario the move returned is 2 and not 5.
\<close>

theorem scenario_block_does_not_return_5:
  "valid_rng pick_last \<and>
   decide_move \<lparr>think_chance = (0, 1)\<rparr> scenario_block_board SideX pick_last \<noteq>
     Inr (5, \<lparr>caller_view = scenario_block_board, working_copy = None\<rparr>) \<and>
   decide_move \<lparr>think_chance = (0, 1)\<rparr> scenario_block_board SideX pick_last =
     Inr (2, \<lparr>caller_view = scenario_block_board, working_copy = None\<rparr>)"
proof -
  have "(0::real) \<le> random1 pick_last" "random2 pick_last < (1::real)"
    by (simp_all add: pick_last_def)
  then have "decide_move \<lparr>think_chance = (0, 1)\<rparr> scenario_block_board SideX pick_last =
     Inr (2, \<lparr>caller_view = scenario_block_board, working_copy = None\<rparr>)"
    by (simp add: decide_move_def scenario_block_not_empty shallow_think_def scenario_block_finds)
  then show ?thesis by (simp add: valid_pick_last)
qed



text \<open>
  C1. With \<^verbatim>\<open>thinkChanceDeep = 1.0\<close>, on every 9-cell board with an empty cell from which
  the side to move can force at least a draw (some move open to it has a value of at least
  0, the opponent then playing optimally; this is the case in particular when the value of
  the position itself, with the opponent having moved last, is at least 0), the move that
  \<^verbatim>\<open>decide_move\<close> returns, whatever the random draws, is an empty cell whose minimax score,
  the one \<^verbatim>\<open>_max_score\<close> computes for it, is at least 0. On the empty board, where the
  move is drawn at random, every one of the nine opening moves has a value of at least 0.
\<close>

theorem deep_thinking_never_picks_a_losing_move:
  assumes "fst (think_chance self) = 1" and "length board_view = 9" and "valid_rng rnd"
    and "(\<exists>i<9. board_view ! i = None \<and> 0 \<le> move_value board_view current_side i) \<or>
         ((\<exists>i<9. board_view ! i = None) \<and> 0 \<le> game_value board_view current_side False)"
  shows "\<exists>mv mem. decide_move self board_view current_side rnd = Inr (mv, mem) \<and>
           mv < 9 \<and> board_view ! mv = None \<and>
           max_score (board_view[mv := Some current_side]) current_side True =
             Inr (move_value board_view current_side mv, board_view[mv := Some current_side]) \<and>
           0 \<le> move_value board_view current_side mv"
proof -
  have ms: "max_score (board_view[mv := Some current_side]) current_side True =
      Inr (move_value board_view current_side mv, board_view[mv := Some current_side])" for mv
    by (simp add: max_score_game_value move_value_def)
  from assms(4) have ne: "empty_cells board_view \<noteq> []"
    using has_empty_cell[OF assms(2)] by blast
  with assms(2,4) obtain i where i: "i \<in> set (empty_cells board_view)"
    "0 \<le> move_value board_view current_side i"
    using position_value_gives_move[of board_view current_side]
    by (auto simp: empty_cells_iff)
  show ?thesis
  proof (cases "list_all (\<lambda>tile. tile = None) board_view")
    case True
    from assms(3) have lt: "randbelow rnd 9 < 9" by (simp add: valid_rng_def)
    from opening_move_value[OF True assms(2) lt] True assms(2) lt ms show ?thesis
      by (simp add: decide_move_def all_empty_cells)
  next
    case False
    from assms(1,3) have deep: "\<not> random1 rnd \<ge> fst (think_chance self)"
      by (simp add: valid_rng_def)
    from deep_think_result[OF assms(3) ne, of current_side] obtain mv where
      mv: "deep_think board_view current_side rnd = Inr (mv, board_view)"
        "mv \<in> set (empty_cells board_view)"
        "\<forall>j \<in> set (empty_cells board_view).
           move_value board_view current_side j \<le> move_value board_view current_side mv"
      by blast
    from mv(3) i have "0 \<le> move_value board_view current_side mv" by force
    with False deep mv(1,2) assms(2) ms show ?thesis
      by (simp add: decide_move_def empty_cells_iff)
  qed
qed

theorem deep_thinking_never_picks_a_losing_move_witness:
  "fst (think_chance default_ai) = 1 \<and> length scenario_win_board = 9 \<and> valid_rng pick_last \<and>
   scenario_win_board ! 2 = None \<and> 0 \<le> move_value scenario_win_board SideX 2 \<and>
   (\<exists>mv mem. decide_move default_ai scenario_win_board SideX pick_last = Inr (mv, mem) \<and>
      mv < 9 \<and> scenario_win_board ! mv = None \<and>
      max_score (scenario_win_board[mv := Some SideX]) SideX True =
        Inr (move_value scenario_win_board SideX mv, scenario_win_board[mv := Some SideX]) \<and>
      0 \<le> move_value scenario_win_board SideX mv)"
proof -
  have p: "fst (think_chance default_ai) = 1" by (simp add: default_ai_def)
  have len: "length scenario_win_board = 9" by (simp add: scenario_win_board_def)
  have two: "scenario_win_board ! 2 = None" by (simp add: scenario_win_board_def)
  have "move_value scenario_win_board SideX 2 = 1"
    unfolding move_value_def scenario_win_board_def
    by (subst game_value.simps) (simp add: has_won_def rows_def)
  then have val: "0 \<le> move_value scenario_win_board SideX 2" by simp
  from two val have hyp:
    "(\<exists>i<9. scenario_win_board ! i = None \<and> 0 \<le> move_value scenario_win_board SideX i) \<or>
     ((\<exists>i<9. scenario_win_board ! i = None) \<and> 0 \<le> game_value scenario_win_board SideX False)"
    by (intro disjI1 exI[of _ 2]) simp
  from deep_thinking_never_picks_a_losing_move[OF p len valid_pick_last hyp] p len
    valid_pick_last two val
  show ?thesis by blast
qed

end
